theory Spec2Isabelle
  imports Complex_Main "HOL-Library.Word" "HOL-Library.Multiset"
begin

unbundle bit_operations_syntax

section \<open>JavaScript values used by server.js\<close>

text \<open>
  A JavaScript string is a sequence of UTF-16 code units; \<open>length\<close>, \<open>slice\<close> and a
  regular expression without the \<open>u\<close> flag all count code units. A Buffer is a sequence
  of bytes. String literals of the source are written with \<open>js\<close>.
\<close>

type_synonym jschar = "16 word"
type_synonym jsstring = "jschar list"
type_synonym bytes = "8 word list"

definition js :: "string \<Rightarrow> jsstring" where
  "js s = map (\<lambda>c. of_nat (of_char c)) s"

text \<open>
  The class \<open>\s\<close> of a JavaScript regular expression, which is also the white space that
  \<open>Number\<close> strips: TAB, LF, VT, FF, CR, SPACE, U+00A0, U+1680, U+2000 to U+200A, U+2028,
  U+2029, U+202F, U+205F, U+3000 and U+FEFF.
\<close>

definition isWhiteSpace :: "jschar \<Rightarrow> bool" where
  "isWhiteSpace c \<longleftrightarrow>
     c = 0x09 \<or> c = 0x0A \<or> c = 0x0B \<or> c = 0x0C \<or> c = 0x0D \<or> c = 0x20 \<or> c = 0xA0 \<or>
     c = 0x1680 \<or> (0x2000 \<le> c \<and> c \<le> 0x200A) \<or> c = 0x2028 \<or> c = 0x2029 \<or>
     c = 0x202F \<or> c = 0x205F \<or> c = 0x3000 \<or> c = 0xFEFF"

section \<open>Helpers\<close>

subsection \<open>sanitizeFilename\<close>

text \<open>
  The character class of the first \<open>replace\<close>: slash, backslash, question mark, percent,
  asterisk, colon, vertical bar, double quote, less-than and greater-than.
\<close>

definition isReserved :: "jschar \<Rightarrow> bool" where
  "isReserved c \<longleftrightarrow>
     c = 0x2F \<or> c = 0x5C \<or> c = 0x3F \<or> c = 0x25 \<or> c = 0x2A \<or> c = 0x3A \<or> c = 0x7C \<or>
     c = 0x22 \<or> c = 0x3C \<or> c = 0x3E"

text \<open>\<open>.replace(/[/\\?%*:|"<>]/g, '-')\<close>: every reserved code unit becomes a hyphen.\<close>

definition replaceReserved :: "jsstring \<Rightarrow> jsstring" where
  "replaceReserved s = map (\<lambda>c. if isReserved c then 0x2D else c) s"

text \<open>\<open>.replace(/\s+/g, '_')\<close>: every maximal run of white space becomes one underscore.\<close>

function replaceSpaceRuns :: "jsstring \<Rightarrow> jsstring" where
  "replaceSpaceRuns [] = []"
| "replaceSpaceRuns (c # cs) =
     (if isWhiteSpace c then 0x5F # replaceSpaceRuns (dropWhile isWhiteSpace cs)
      else c # replaceSpaceRuns cs)"
  by pat_completeness auto
termination
  by (relation "measure length") (auto simp: length_dropWhile_le less_Suc_eq_le)

text \<open>
  \<open>(name || 'image')\<close>: the empty string is falsy, so it is replaced by the default;
  \<open>.slice(0, 120)\<close> keeps the first 120 code units.
\<close>

definition sanitizeFilename :: "jsstring \<Rightarrow> jsstring" where
  "sanitizeFilename name =
     take 120 (replaceSpaceRuns (replaceReserved (if name = [] then js ''image'' else name)))"

subsection \<open>Query values and numbers\<close>

text \<open>
  A query parameter is absent (\<open>undefined\<close>) or a string. A JavaScript number is NaN, an
  infinity or a finite double; \<open>Fin r\<close> stands for the double nearest to the real \<open>r\<close>.
  \<open>Math.min\<close> and \<open>Math.max\<close> against the bounds used here (0, 1, 6, 100, all doubles)
  commute with that rounding, so \<open>clamp\<close> is computed on the reals.
\<close>

datatype qval = Undefined | Str jsstring

datatype jsnum = NaN | Fin real | PosInf | NegInf

text \<open>
  \<open>Number(s)\<close> on a string, after ECMAScript's StringToNumber: white space is stripped at
  both ends; the empty string is 0; \<open>0x\<close>, \<open>0o\<close>, \<open>0b\<close> introduce an unsigned integer in
  base 16, 8, 2; otherwise an optional sign is followed by \<open>Infinity\<close> or by a decimal
  literal with an optional fraction and an optional exponent. Anything else is NaN. A
  magnitude of \<open>2^1024 - 2^970\<close> or more rounds to an infinity.
\<close>

definition digitVal :: "jschar \<Rightarrow> nat option" where
  "digitVal c =
     (if 0x30 \<le> c \<and> c \<le> 0x39 then Some (unat c - 48)
      else if 0x61 \<le> c \<and> c \<le> 0x66 then Some (unat c - 87)
      else if 0x41 \<le> c \<and> c \<le> 0x46 then Some (unat c - 55)
      else None)"

fun digitsVal :: "nat \<Rightarrow> jsstring \<Rightarrow> nat \<Rightarrow> nat option" where
  "digitsVal b [] acc = Some acc"
| "digitsVal b (c # cs) acc =
     (case digitVal c of
        None \<Rightarrow> None
      | Some d \<Rightarrow> if d < b then digitsVal b cs (acc * b + d) else None)"

definition parseDigits :: "nat \<Rightarrow> jsstring \<Rightarrow> nat option" where
  "parseDigits b s = (if s = [] then None else digitsVal b s 0)"

definition trim :: "jsstring \<Rightarrow> jsstring" where
  "trim s = rev (dropWhile isWhiteSpace (rev (dropWhile isWhiteSpace s)))"

definition toDouble :: "real \<Rightarrow> jsnum" where
  "toDouble v =
     (if 2 ^ 1024 - 2 ^ 970 \<le> v then PosInf
      else if v \<le> - (2 ^ 1024 - 2 ^ 970) then NegInf
      else Fin v)"

definition negate :: "jsnum \<Rightarrow> jsnum" where
  "negate n = (case n of NaN \<Rightarrow> NaN | Fin v \<Rightarrow> Fin (- v) | PosInf \<Rightarrow> NegInf | NegInf \<Rightarrow> PosInf)"

text \<open>The exponent part after \<open>e\<close> or \<open>E\<close>: an optional sign and at least one digit.\<close>

definition parseExponent :: "jsstring \<Rightarrow> int option" where
  "parseExponent s =
     (case s of
        [] \<Rightarrow> None
      | c # cs \<Rightarrow>
          if c = 0x2B then map_option int (parseDigits 10 cs)
          else if c = 0x2D then map_option (\<lambda>n. - int n) (parseDigits 10 cs)
          else map_option int (parseDigits 10 s))"

text \<open>The mantissa: digits, digits with a fraction, or a fraction alone.\<close>

definition parseMantissa :: "jsstring \<Rightarrow> real option" where
  "parseMantissa m =
     (let ip = takeWhile (\<lambda>c. c \<noteq> 0x2E) m; rest = dropWhile (\<lambda>c. c \<noteq> 0x2E) m
      in if rest = [] then map_option real (parseDigits 10 ip)
         else let fp = tl rest
              in if ip = [] \<and> fp = [] then None
                 else (case (digitsVal 10 ip 0, digitsVal 10 fp 0) of
                         (Some i, Some f) \<Rightarrow> Some (real i + real f / 10 ^ length fp)
                       | _ \<Rightarrow> None))"

definition parseUnsignedDecimal :: "jsstring \<Rightarrow> jsnum" where
  "parseUnsignedDecimal s =
     (if s = js ''Infinity'' then PosInf
      else let isE = (\<lambda>c. c = 0x65 \<or> c = 0x45);
               m = takeWhile (\<lambda>c. \<not> isE c) s; rest = dropWhile (\<lambda>c. \<not> isE c) s
           in case parseMantissa m of
                None \<Rightarrow> NaN
              | Some v \<Rightarrow>
                  if rest = [] then toDouble v
                  else (case parseExponent (tl rest) of
                          None \<Rightarrow> NaN
                        | Some e \<Rightarrow>
                            toDouble (if 0 \<le> e then v * 10 ^ nat e else v / 10 ^ nat (- e))))"

definition parsePrefixed :: "nat \<Rightarrow> jsstring \<Rightarrow> jsnum" where
  "parsePrefixed b ds = (case parseDigits b ds of None \<Rightarrow> NaN | Some n \<Rightarrow> toDouble (real n))"

definition stringToNumber :: "jsstring \<Rightarrow> jsnum" where
  "stringToNumber s =
     (let t = trim s
      in if t = [] then Fin 0
         else if take 2 t = js ''0x'' \<or> take 2 t = js ''0X'' then parsePrefixed 16 (drop 2 t)
         else if take 2 t = js ''0o'' \<or> take 2 t = js ''0O'' then parsePrefixed 8 (drop 2 t)
         else if take 2 t = js ''0b'' \<or> take 2 t = js ''0B'' then parsePrefixed 2 (drop 2 t)
         else if hd t = 0x2B then parseUnsignedDecimal (tl t)
         else if hd t = 0x2D then negate (parseUnsignedDecimal (tl t))
         else parseUnsignedDecimal t)"

definition Number :: "qval \<Rightarrow> jsnum" where
  "Number v = (case v of Undefined \<Rightarrow> NaN | Str s \<Rightarrow> stringToNumber s)"

subsection \<open>clamp and parseBool\<close>

text \<open>
  \<open>clamp(num, min, max, def)\<close>: a finite number is forced into \<open>[min, max]\<close>; anything
  else gives \<open>def\<close>, which may itself be \<open>undefined\<close> (\<open>None\<close>).
\<close>

definition clamp :: "qval \<Rightarrow> real \<Rightarrow> real \<Rightarrow> jsnum option \<Rightarrow> jsnum option" where
  "clamp num mn mx def =
     (case Number num of
        Fin n \<Rightarrow> Some (Fin (min mx (max mn n)))
      | _ \<Rightarrow> def)"

text \<open>
  \<open>toLowerCase\<close> on the letters A to Z; other code units are left as they are, which is
  what JavaScript does on ASCII input (Unicode case mapping is not modelled).
\<close>

definition toLowerCase :: "jsstring \<Rightarrow> jsstring" where
  "toLowerCase s = map (\<lambda>c. if 0x41 \<le> c \<and> c \<le> 0x5A then c + 0x20 else c) s"

definition parseBool :: "qval \<Rightarrow> bool \<Rightarrow> bool" where
  "parseBool val def =
     (case val of
        Undefined \<Rightarrow> def
      | Str v \<Rightarrow>
          (let s = toLowerCase v
           in s = js ''1'' \<or> s = js ''true'' \<or> s = js ''yes'' \<or> s = js ''on''))"

subsection \<open>changeExtToWebp and convertBufferToWebp\<close>

text \<open>
  What the program takes from outside: \<open>path.parse(f).name\<close> of Node, the encoder of
  sharp (\<open>sharp(buffer, {sequentialRead: true}).rotate().webp(options).toBuffer()\<close>, which
  yields the encoded bytes or throws), the configuration read from the environment, the
  clock, the process uptime and the random UUID. A thrown value carries an optional
  \<open>message\<close>.
\<close>

datatype jserr = JsError (message: "jsstring option")

record options =
  quality :: "jsnum option"
  lossless :: bool
  nearLossless :: bool
  alphaQuality :: "jsnum option"
  effort :: "jsnum option"
  smartSubsample :: bool

record env =
  parseName :: "jsstring \<Rightarrow> jsstring"
  webp :: "bytes \<Rightarrow> options \<Rightarrow> jserr + bytes"
  DEFAULT_QUALITY :: jsnum
  DEFAULT_EFFORT :: jsnum
  CONVERT_CONCURRENCY :: int
  now :: nat
  uptime :: real
  randomUUID :: jsstring

definition changeExtToWebp :: "env \<Rightarrow> jsstring \<Rightarrow> jsstring" where
  "changeExtToWebp E filename =
     (let name = parseName E filename
      in sanitizeFilename (if name = [] then js ''image'' else name) @ js ''.webp'')"

text \<open>
  The options handed to the encoder. \<open>typeof x === 'number' ? x : undefined\<close> keeps a
  number (NaN included) and maps \<open>undefined\<close> to \<open>undefined\<close>.
\<close>

definition webpOptions :: "options \<Rightarrow> options" where
  "webpOptions opts =
     \<lparr> quality = (if lossless opts then Some (Fin 100) else quality opts),
       lossless = lossless opts,
       nearLossless = nearLossless opts,
       alphaQuality = (case alphaQuality opts of Some n \<Rightarrow> Some n | None \<Rightarrow> None),
       effort = (case effort opts of Some n \<Rightarrow> Some n | None \<Rightarrow> None),
       smartSubsample = smartSubsample opts \<rparr>"

definition convertBufferToWebp :: "env \<Rightarrow> bytes \<Rightarrow> options \<Rightarrow> jserr + bytes" where
  "convertBufferToWebp E buffer opts = webp E buffer (webpOptions opts)"

text \<open>The option record of a request, as \<open>POST /convert\<close> resolves it from the query.\<close>

type_synonym query = "string \<Rightarrow> qval"

definition resolveOptions :: "env \<Rightarrow> query \<Rightarrow> options" where
  "resolveOptions E q =
     \<lparr> quality = clamp (q ''quality'') 1 100 (Some (DEFAULT_QUALITY E)),
       lossless = parseBool (q ''lossless'') False,
       nearLossless = parseBool (q ''nearLossless'') False,
       alphaQuality = clamp (q ''alphaQuality'') 0 100 None,
       effort = clamp (q ''effort'') 0 6 (Some (DEFAULT_EFFORT E)),
       smartSubsample = parseBool (q ''smartSubsample'') False \<rparr>"

section \<open>mapWithLimit\<close>

text \<open>
  JavaScript runs one piece of code at a time; an \<open>async\<close> function gives up control
  only at an \<open>await\<close>. So a run of \<open>mapWithLimit\<close> is a sequence of atomic steps: the
  synchronous start, in which each of the \<open>Math.min(limit, items.length)\<close> workers takes
  its first index and calls the mapper, and then one step for each mapper call that
  settles, in whatever order the calls settle. The state between two steps is the
  counter \<open>i\<close>, the array \<open>results\<close> (\<open>None\<close> is an empty slot), what each worker is
  doing, and the state the mapper itself works on (for the archive branch, the archive).

  A worker is awaiting the mapper call for an index, has left its loop at \<open>break\<close>, or
  has thrown because its mapper call rejected. A mapper call is described by what it has
  done when it settles: the value it resolves with or the error it rejects with, and its
  effect on the shared state.
\<close>

datatype wstate = Awaiting nat | Finished | Failed

fun isAwaiting :: "wstate \<Rightarrow> bool" where
  "isAwaiting (Awaiting idx) = True"
| "isAwaiting Finished = False"
| "isAwaiting Failed = False"

record ('b, 's) pool =
  next_i :: nat
  results :: "'b option list"
  workers :: "wstate list"
  shared :: 's
  rejection :: "jserr option"

type_synonym ('a, 'b, 's) mapper = "'a \<Rightarrow> nat \<Rightarrow> 's \<Rightarrow> (jserr + 'b) \<times> 's"

text \<open>\<open>const idx = i++; if (idx >= items.length) break;\<close> and otherwise the mapper call.\<close>

definition takeIndex :: "nat \<Rightarrow> nat \<Rightarrow> wstate" where
  "takeIndex idx n = (if idx \<ge> n then Finished else Awaiting idx)"

text \<open>
  The start: the workers are created one after the other, and each runs up to its first
  \<open>await\<close> before the next is created.
\<close>

fun spawn :: "nat \<Rightarrow> nat \<Rightarrow> nat \<Rightarrow> wstate list \<times> nat" where
  "spawn 0 n i = ([], i)"
| "spawn (Suc k) n i = (let (ws, i') = spawn k n (Suc i) in (takeIndex i n # ws, i'))"

text \<open>
  The mapper call of worker \<open>w\<close> settles. On a value the worker stores it in its slot and
  takes the next index; on an error the worker throws, and \<open>Promise.all\<close> rejects with
  that error.
\<close>

definition settle :: "('a, 'b, 's) mapper \<Rightarrow> 'a list \<Rightarrow> nat \<Rightarrow> ('b, 's) pool \<Rightarrow> ('b, 's) pool" where
  "settle mapper items w p =
     (case workers p ! w of
        Awaiting idx \<Rightarrow>
          (case mapper (items ! idx) idx (shared p) of
             (Inl err, s') \<Rightarrow>
               p\<lparr> workers := (workers p)[w := Failed], shared := s', rejection := Some err \<rparr>
           | (Inr v, s') \<Rightarrow>
               p\<lparr> next_i := Suc (next_i p),
                  results := (results p)[idx := Some v],
                  workers := (workers p)[w := takeIndex (next_i p) (length items)],
                  shared := s' \<rparr>)
      | _ \<Rightarrow> p)"

text \<open>The workers whose mapper call is in flight, and how many there are.\<close>

definition awaiting :: "('b, 's) pool \<Rightarrow> nat list" where
  "awaiting p = filter (\<lambda>w. isAwaiting (workers p ! w)) [0..<length (workers p)]"

definition inflight :: "('b, 's) pool \<Rightarrow> nat" where
  "inflight p = length (awaiting p)"

text \<open>The indices whose mapper call is in flight, in the order of the workers.\<close>

fun awaited :: "wstate list \<Rightarrow> nat list" where
  "awaited [] = []"
| "awaited (Awaiting idx # ws) = idx # awaited ws"
| "awaited (Finished # ws) = awaited ws"
| "awaited (Failed # ws) = awaited ws"

text \<open>
  Which call settles next is not in the program's hands. A schedule is a list of
  numbers; each picks one of the calls in flight (modulo their number), and an exhausted
  schedule picks the first. Every interleaving is the run of some schedule.
\<close>

definition pick :: "nat list \<Rightarrow> nat list \<Rightarrow> nat" where
  "pick sched aw = aw ! ((case sched of [] \<Rightarrow> 0 | c # _ \<Rightarrow> c) mod length aw)"

definition remaining :: "'a list \<Rightarrow> ('b, 's) pool \<Rightarrow> nat" where
  "remaining items p = (length items - next_i p) + inflight p"

lemma awaiting_count:
  "length (filter (\<lambda>k. isAwaiting (xs ! k)) [0..<length xs]) = length (filter isAwaiting xs)"
proof -
  have "map ((!) xs) (filter (\<lambda>k. isAwaiting (xs ! k)) [0..<length xs]) =
        filter isAwaiting (map ((!) xs) [0..<length xs])"
    by (simp add: filter_map comp_def)
  then have "length (filter (\<lambda>k. isAwaiting (xs ! k)) [0..<length xs]) =
             length (filter isAwaiting (map ((!) xs) [0..<length xs]))"
    by (metis length_map)
  then show ?thesis
    by (simp add: map_nth)
qed

lemma awaiting_positive:
  "w < length ws \<Longrightarrow> isAwaiting (ws ! w) \<Longrightarrow> 0 < length (filter isAwaiting ws)"
  by (metis filter_empty_conv length_greater_0_conv nth_mem)

lemma awaiting_update:
  "w < length ws \<Longrightarrow> isAwaiting (ws ! w) \<Longrightarrow>
   length (filter isAwaiting (ws[w := x])) =
     (if isAwaiting x then length (filter isAwaiting ws)
      else length (filter isAwaiting ws) - 1)"
proof (induction ws arbitrary: w)
  case Nil
  then show ?case by simp
next
  case (Cons a ws)
  show ?case
  proof (cases w)
    case 0
    with Cons.prems show ?thesis by simp
  next
    case (Suc k)
    with Cons.prems have k: "k < length ws" "isAwaiting (ws ! k)" by simp_all
    from awaiting_positive[OF k] Cons.IH[OF k] Suc show ?thesis by simp
  qed
qed

lemma inflight_update:
  assumes "w < length ws" "isAwaiting (ws ! w)"
  shows "length (filter (\<lambda>k. isAwaiting (ws[w := x] ! k)) [0..<length ws]) =
         (if isAwaiting x then length (filter (\<lambda>k. isAwaiting (ws ! k)) [0..<length ws])
          else length (filter (\<lambda>k. isAwaiting (ws ! k)) [0..<length ws]) - 1)"
    and "0 < length (filter (\<lambda>k. isAwaiting (ws ! k)) [0..<length ws])"
proof -
  show "length (filter (\<lambda>k. isAwaiting (ws[w := x] ! k)) [0..<length ws]) =
         (if isAwaiting x then length (filter (\<lambda>k. isAwaiting (ws ! k)) [0..<length ws])
          else length (filter (\<lambda>k. isAwaiting (ws ! k)) [0..<length ws]) - 1)"
    using awaiting_count[of "ws[w := x]"] awaiting_count[of ws] awaiting_update[OF assms, of x]
    by simp
  show "0 < length (filter (\<lambda>k. isAwaiting (ws ! k)) [0..<length ws])"
    using awaiting_count[of ws] awaiting_positive[OF assms] by simp
qed

lemma pick_awaiting: "aw \<noteq> [] \<Longrightarrow> pick sched aw \<in> set aw"
  by (simp add: pick_def)

lemma awaiting_member:
  "w \<in> set (awaiting p) \<longleftrightarrow> w < length (workers p) \<and> isAwaiting (workers p ! w)"
  by (auto simp: awaiting_def)

lemma settle_decreases:
  assumes "w \<in> set (awaiting p)"
  shows "remaining items (settle mapper items w p) < remaining items p"
proof -
  from assms have w: "w < length (workers p)" "isAwaiting (workers p ! w)"
    by (simp_all add: awaiting_member)
  then obtain idx where idx: "workers p ! w = Awaiting idx"
    by (cases "workers p ! w") auto
  obtain r s' where m: "mapper (items ! idx) idx (shared p) = (r, s')"
    by (cases "mapper (items ! idx) idx (shared p)")
  note upd = inflight_update[OF w]
  show ?thesis
  proof (cases r)
    case (Inl err)
    then show ?thesis
      using idx m upd(1)[of Failed] upd(2)
      by (simp add: settle_def remaining_def inflight_def awaiting_def)
  next
    case (Inr v)
    then show ?thesis
      using idx m upd(1)[of "takeIndex (next_i p) (length items)"] upd(2)
      by (auto simp: settle_def remaining_def inflight_def awaiting_def takeIndex_def)
  qed
qed

text \<open>
  The run after the start: calls settle until \<open>Promise.all\<close> rejects (a worker has thrown)
  or resolves (no call is in flight, so every worker has left its loop).
\<close>

function run :: "('a, 'b, 's) mapper \<Rightarrow> 'a list \<Rightarrow> nat list \<Rightarrow> ('b, 's) pool \<Rightarrow> ('b, 's) pool" where
  "run mapper items sched p =
     (if rejection p \<noteq> None \<or> awaiting p = [] then p
      else run mapper items (tl sched) (settle mapper items (pick sched (awaiting p)) p))"
  by pat_completeness auto
termination
  by (relation "measure (\<lambda>(mapper, items, sched, p). remaining items p)")
     (auto intro: settle_decreases pick_awaiting)

declare run.simps [simp del]

text \<open>The first \<open>k\<close> steps of the same run: the states the run passes through.\<close>

fun run_steps :: "nat \<Rightarrow> ('a, 'b, 's) mapper \<Rightarrow> 'a list \<Rightarrow> nat list \<Rightarrow> ('b, 's) pool \<Rightarrow> ('b, 's) pool" where
  "run_steps 0 mapper items sched p = p"
| "run_steps (Suc k) mapper items sched p =
     (if rejection p \<noteq> None \<or> awaiting p = [] then p
      else run_steps k mapper items (tl sched) (settle mapper items (pick sched (awaiting p)) p))"

text \<open>
  \<open>new Array(n)\<close> throws a RangeError for a negative \<open>n\<close> (and for NaN, which a limit read
  from a malformed environment variable would be; the model has no NaN limit, a negative
  one fails the same way).
\<close>

definition rangeError :: jserr where
  "rangeError = JsError (Some (js ''Invalid array length''))"

definition start :: "'a list \<Rightarrow> nat \<Rightarrow> 's \<Rightarrow> ('b, 's) pool" where
  "start items k s0 =
     (let (ws, i) = spawn k (length items) 0
      in \<lparr> next_i = i, results = replicate (length items) None, workers = ws,
           shared = s0, rejection = None \<rparr>)"

text \<open>
  The call as a whole: the array of results when \<open>Promise.all\<close> resolves, the error when
  it rejects, together with the shared state at that moment.
\<close>

definition mapWithLimit ::
  "'a list \<Rightarrow> int \<Rightarrow> ('a, 'b, 's) mapper \<Rightarrow> nat list \<Rightarrow> 's \<Rightarrow> (jserr + 'b option list) \<times> 's" where
  "mapWithLimit items limit mapper sched s0 =
     (let k = min limit (int (length items))
      in if k < 0 then (Inl rangeError, s0)
         else let p = run mapper items sched (start items (nat k) s0)
              in (case rejection p of
                    Some err \<Rightarrow> (Inl err, shared p)
                  | None \<Rightarrow> (Inr (results p), shared p)))"

section \<open>Routes\<close>

text \<open>
  An uploaded file as multer hands it over; a JSON value of the kinds the routes send; a
  piece of output, which is a string or a buffer; an operation on the archive. A response
  is what the handler has sent when it returns: a JSON body with its status, one buffer
  with its headers, the archive piped into the response, the chunks written to a
  multipart response, or the error passed to \<open>next\<close>.
\<close>

record upload =
  originalname :: jsstring
  buffer :: bytes
  mimetype :: jsstring

datatype json = JBool bool | JNum jsnum | JStr jsstring

datatype content = Text jsstring | Bytes bytes

datatype archive_op = Append content jsstring | Finalize

type_synonym headers = "(string \<times> jsstring) list"

datatype reply =
    Json nat "(string \<times> json) list"
  | Send nat headers bytes
  | Zip headers "archive_op list"
  | Multipart headers "content list"
  | Next jserr

subsection \<open>Strings and bytes written to the response\<close>

definition crlf :: jsstring where
  "crlf = [0x0D, 0x0A]"

definition quoted :: "jsstring \<Rightarrow> jsstring" where
  "quoted s = [0x22] @ s @ [0x22]"

text \<open>A non-negative integer in a template string: its decimal digits.\<close>

fun decimal :: "nat \<Rightarrow> jsstring" where
  "decimal n =
     (if n < 10 then [0x30 + of_nat n] else decimal (n div 10) @ [0x30 + of_nat (n mod 10)])"

declare decimal.simps [simp del]

text \<open>
  \<open>Buffer.from(s, 'utf8')\<close>, which is also how a string passed to \<open>res.write\<close> goes on
  the wire: UTF-8, a surrogate pair as one code point of four bytes, a lone surrogate as
  U+FFFD, any other code unit as one to three bytes.
\<close>

definition isHighSurrogate :: "jschar \<Rightarrow> bool" where
  "isHighSurrogate c \<longleftrightarrow> 0xD800 \<le> c \<and> c < 0xDC00"

definition isLowSurrogate :: "jschar \<Rightarrow> bool" where
  "isLowSurrogate c \<longleftrightarrow> 0xDC00 \<le> c \<and> c < 0xE000"

definition utf8Unit :: "jschar \<Rightarrow> bytes" where
  "utf8Unit c =
     (if c < 0x80 then [ucast c]
      else if c < 0x800 then [0xC0 OR ucast (drop_bit 6 c), 0x80 OR ucast (c AND 0x3F)]
      else if isHighSurrogate c \<or> isLowSurrogate c then [0xEF, 0xBF, 0xBD]
      else [0xE0 OR ucast (drop_bit 12 c), 0x80 OR ucast (drop_bit 6 c AND 0x3F),
            0x80 OR ucast (c AND 0x3F)])"

definition utf8Pair :: "jschar \<Rightarrow> jschar \<Rightarrow> bytes" where
  "utf8Pair c d =
     (let cp = (0x10000 + push_bit 10 (ucast (c AND 0x3FF)) + ucast (d AND 0x3FF) :: 32 word)
      in [0xF0 OR ucast (drop_bit 18 cp), 0x80 OR ucast (drop_bit 12 cp AND 0x3F),
          0x80 OR ucast (drop_bit 6 cp AND 0x3F), 0x80 OR ucast (cp AND 0x3F)])"

fun utf8 :: "jsstring \<Rightarrow> bytes" where
  "utf8 [] = []"
| "utf8 [c] = utf8Unit c"
| "utf8 (c # d # cs) =
     (if isHighSurrogate c \<and> isLowSurrogate d then utf8Pair c d @ utf8 cs
      else utf8Unit c @ utf8 (d # cs))"

definition onWire :: "content \<Rightarrow> bytes" where
  "onWire c = (case c of Text s \<Rightarrow> utf8 s | Bytes b \<Rightarrow> b)"

definition wire :: "content list \<Rightarrow> bytes" where
  "wire cs = concat (map onWire cs)"

text \<open>\<open>x || d\<close> on a string: the empty string is falsy.\<close>

definition orElse :: "jsstring \<Rightarrow> jsstring \<Rightarrow> jsstring" where
  "orElse x d = (if x = [] then d else x)"

text \<open>\<open>String(err?.message || 'Conversion failed')\<close>.\<close>

definition failMessage :: "jserr \<Rightarrow> jsstring" where
  "failMessage err =
     (case message err of
        None \<Rightarrow> js ''Conversion failed''
      | Some m \<Rightarrow> orElse m (js ''Conversion failed''))"

definition failName :: "env \<Rightarrow> upload \<Rightarrow> jsstring" where
  "failName E file =
     sanitizeFilename (parseName E (orElse (originalname file) (js ''image''))) @ js ''__ERROR.txt''"

definition outName :: "env \<Rightarrow> upload \<Rightarrow> jsstring" where
  "outName E file = changeExtToWebp E (orElse (originalname file) (js ''image.webp''))"

subsection \<open>GET /health\<close>

definition health :: "env \<Rightarrow> reply" where
  "health E = Json 200 [(''ok'', JBool True), (''uptime'', JNum (Fin (uptime E)))]"

subsection \<open>POST /convert\<close>

definition outputMode :: "query \<Rightarrow> jsstring" where
  "outputMode q =
     toLowerCase (case q ''output'' of Undefined \<Rightarrow> js ''auto'' | Str s \<Rightarrow> orElse s (js ''auto''))"

definition attachment :: "jsstring \<Rightarrow> jsstring" where
  "attachment name = js ''attachment; filename='' @ quoted name"

text \<open>A single file: the encoded image itself; an encoder error goes to \<open>next\<close>.\<close>

definition singleBranch :: "env \<Rightarrow> options \<Rightarrow> upload \<Rightarrow> reply" where
  "singleBranch E convertOpts file =
     (let name = outName E file
      in case convertBufferToWebp E (buffer file) convertOpts of
           Inl err \<Rightarrow> Next err
         | Inr buf \<Rightarrow>
             Send 200
               [(''Content-Type'', js ''image/webp''),
                (''Content-Disposition'', attachment name),
                (''Cache-Control'', js ''no-store'')]
               buf)"

text \<open>
  The mapper of the archive branch. Its \<open>try\<close> block appends the encoded image; its
  \<open>catch\<close> block appends a text entry instead. It returns nothing (\<open>undefined\<close>, here the
  unit value) and lets no error out. The entry is appended when the encoder has settled,
  so the archive receives the entries in the order in which the conversions finish.
\<close>

definition zipWorker :: "env \<Rightarrow> options \<Rightarrow> (upload, unit, archive_op list) mapper" where
  "zipWorker E convertOpts file idx archive =
     (let name = outName E file
      in case convertBufferToWebp E (buffer file) convertOpts of
           Inr buf \<Rightarrow> (Inr (), archive @ [Append (Bytes buf) name])
         | Inl err \<Rightarrow> (Inr (), archive @ [Append (Text (failMessage err)) (failName E file)]))"

definition zipHeaders :: "env \<Rightarrow> headers" where
  "zipHeaders E =
     (let zipName = js ''converted_'' @ decimal (now E) @ js ''.zip''
      in [(''Content-Type'', js ''application/zip''),
          (''Content-Disposition'', attachment zipName),
          (''Cache-Control'', js ''no-store'')])"

text \<open>
  The archive branch: the headers, then the archive (empty at first) is filled by the
  workers of \<open>mapWithLimit\<close>, and \<open>archive.finalize()\<close> is called once the awaited call
  has returned. If the call throws, the handler's \<open>catch\<close> passes the error on.
\<close>

definition zipBranch :: "env \<Rightarrow> options \<Rightarrow> upload list \<Rightarrow> nat list \<Rightarrow> reply" where
  "zipBranch E convertOpts files sched =
     (case mapWithLimit files (CONVERT_CONCURRENCY E) (zipWorker E convertOpts) sched [] of
        (Inl err, archive) \<Rightarrow> Next err
      | (Inr rs, archive) \<Rightarrow> Zip (zipHeaders E) (archive @ [Finalize]))"

text \<open>
  One turn of the \<open>for\<close> loop of the multipart branch: the six writes of the \<open>try\<close> block,
  or, when the encoder throws (which it does before the first write), the six writes of
  the \<open>catch\<close> block.
\<close>

definition writePart :: "env \<Rightarrow> options \<Rightarrow> jsstring \<Rightarrow> upload \<Rightarrow> content list" where
  "writePart E convertOpts boundary file =
     (let name = outName E file
      in case convertBufferToWebp E (buffer file) convertOpts of
           Inr buf \<Rightarrow>
             [Text (js ''--'' @ boundary @ crlf),
              Text (js ''Content-Type: image/webp'' @ crlf),
              Text (js ''Content-Disposition: '' @ attachment name @ crlf),
              Text (js ''Content-Length: '' @ decimal (length buf) @ crlf @ crlf),
              Bytes buf,
              Text crlf]
         | Inl err \<Rightarrow>
             (let msg = failMessage err; errName = failName E file; errBuf = utf8 msg
              in [Text (js ''--'' @ boundary @ crlf),
                  Text (js ''Content-Type: text/plain; charset=utf-8'' @ crlf),
                  Text (js ''Content-Disposition: '' @ attachment errName @ [0x0A]),
                  Text (js ''Content-Length: '' @ decimal (length errBuf) @ crlf @ crlf),
                  Bytes errBuf,
                  Text crlf]))"

fun writeParts :: "env \<Rightarrow> options \<Rightarrow> jsstring \<Rightarrow> upload list \<Rightarrow> content list" where
  "writeParts E convertOpts boundary [] = []"
| "writeParts E convertOpts boundary (file # files) =
     writePart E convertOpts boundary file @ writeParts E convertOpts boundary files"

definition multipartBranch :: "env \<Rightarrow> options \<Rightarrow> upload list \<Rightarrow> reply" where
  "multipartBranch E convertOpts files =
     (let boundary = js ''batch-'' @ filter (\<lambda>c. c \<noteq> 0x2D) (randomUUID E)
      in Multipart
           [(''Content-Type'', js ''multipart/mixed; boundary='' @ boundary),
            (''Cache-Control'', js ''no-store'')]
           (writeParts E convertOpts boundary files @ [Text (js ''--'' @ boundary @ js ''--'' @ crlf)]))"

text \<open>
  The handler. \<open>req.files\<close> may be missing. The schedule stands for the order in which
  the conversions of the archive branch finish.
\<close>

definition convert :: "env \<Rightarrow> upload list option \<Rightarrow> query \<Rightarrow> nat list \<Rightarrow> reply" where
  "convert E req_files q sched =
     (case req_files of
        None \<Rightarrow>
          Json 400 [(''error'', JStr (js ''No files received. Use field name '' @ quoted (js ''images'') @ js ''.''))]
      | Some files \<Rightarrow>
          if length files = 0 then
            Json 400 [(''error'', JStr (js ''No files received. Use field name '' @ quoted (js ''images'') @ js ''.''))]
          else
            (let mode = outputMode q;
                 convertOpts = resolveOptions E q;
                 wantsZip = (mode = js ''zip'' \<or> (mode = js ''auto'' \<and> length files > 1));
                 wantsMultipart = (mode = js ''multipart'')
             in if \<not> wantsZip \<and> \<not> wantsMultipart \<and> length files = 1 then
                  singleBranch E convertOpts (files ! 0)
                else if wantsZip then zipBranch E convertOpts files sched
                else if wantsMultipart then multipartBranch E convertOpts files
                else Json 400 [(''error'', JStr (js ''Invalid output mode''))]))"

subsection \<open>A sample environment\<close>

text \<open>
  Concrete stand-ins for the outside world, used where a statement is evaluated at an
  example: the name of a file is what precedes its first dot, and the encoder rejects an
  empty buffer and otherwise puts one byte in front of its input.
\<close>

definition sampleEnv :: env where
  "sampleEnv =
     \<lparr> parseName = takeWhile (\<lambda>c. c \<noteq> 0x2E),
       webp = (\<lambda>buf opts. if buf = [] then Inl (JsError (Some (js ''Input buffer is empty'')))
                           else Inr (0x52 # buf)),
       DEFAULT_QUALITY = Fin 80,
       DEFAULT_EFFORT = Fin 4,
       CONVERT_CONCURRENCY = 2,
       now = 1700000000000,
       uptime = 12.5,
       randomUUID = js ''123e4567-e89b-12d3-a456-426614174000'' \<rparr>"

definition sampleFile :: "string \<Rightarrow> bytes \<Rightarrow> upload" where
  "sampleFile name buf = \<lparr> originalname = js name, buffer = buf, mimetype = js ''image/png'' \<rparr>"

definition sampleQuery :: "(string \<times> string) list \<Rightarrow> query" where
  "sampleQuery kvs k = (case map_of kvs k of None \<Rightarrow> Undefined | Some v \<Rightarrow> Str (js v))"

definition pool_inv :: "nat \<Rightarrow> nat \<Rightarrow> ('b, 's) pool \<Rightarrow> bool" where
  "pool_inv k n p \<longleftrightarrow>
     length (workers p) = k \<and> length (results p) = n \<and>
     distinct (awaited (workers p)) \<and>
     (\<forall>idx \<in> set (awaited (workers p)). idx < n \<and> idx < next_i p) \<and>
     (Finished \<in> set (workers p) \<longrightarrow> n \<le> next_i p) \<and>
     (Failed \<in> set (workers p) \<longrightarrow> rejection p \<noteq> None)"

text \<open>What the slots hold while the pool runs a mapper whose value for index \<open>j\<close> is \<open>g j\<close>.\<close>

definition slots_inv :: "(nat \<Rightarrow> 'b) \<Rightarrow> nat \<Rightarrow> ('b, 's) pool \<Rightarrow> bool" where
  "slots_inv g n p \<longleftrightarrow>
     (\<forall>j < n. results p ! j =
        (if j < next_i p \<and> j \<notin> set (awaited (workers p)) then Some (g j) else None))"

text \<open>
  What the shared state holds while the pool runs a mapper that appends \<open>e j\<close> to it when
  the call for index \<open>j\<close> settles.
\<close>

definition log_inv :: "(nat \<Rightarrow> 'c) \<Rightarrow> 'c list \<Rightarrow> nat \<Rightarrow> ('b, 'c list) pool \<Rightarrow> bool" where
  "log_inv e s0 n p \<longleftrightarrow>
     mset (shared p) + image_mset e (mset (awaited (workers p))) =
     mset s0 + image_mset e (mset [0..<min (next_i p) n])"

section \<open>What the specification asks of the outputs\<close>

text \<open>
  The archive entry of an item, in the specification's words: a success gives an entry
  named with the output name that contains the encoded bytes; a failure gives an entry
  named \<open><base>__ERROR.txt\<close> that contains the failure message as text.
\<close>

definition archiveEntry :: "env \<Rightarrow> options \<Rightarrow> upload \<Rightarrow> archive_op" where
  "archiveEntry E convertOpts f =
     (case convertBufferToWebp E (buffer f) convertOpts of
        Inr encodedBytes \<Rightarrow> Append (Bytes encodedBytes) (outName E f)
      | Inl err \<Rightarrow> Append (Text (failMessage err)) (failName E f))"

text \<open>
  C1. For a positive limit and a worker that yields a value for every item, the call
  returns an array with one slot for each item, none of them empty, in which slot \<open>j\<close>
  holds the value the worker produced for \<open>items[j]\<close>; this holds whatever the order in
  which the worker's calls settle. The array is returned when no call is in flight any more.
\<close>

definition tenfold :: "(nat, nat, nat list) mapper" where
  "tenfold x j s = (Inr (x * 10), s @ [j])"

definition jsonField :: "reply \<Rightarrow> string \<Rightarrow> json option" where
  "jsonField r k = (case r of Json st kvs \<Rightarrow> map_of kvs k | _ \<Rightarrow> None)"

text \<open>
  A part of the multipart body, in the specification's words: the boundary delimiter
  line, the Content-Type, Content-Disposition and Content-Length header lines, a blank
  line, the body and a line separator; the line separator is CR LF throughout and the
  length is the number of bytes of the body.
\<close>

definition spec_part :: "jsstring \<Rightarrow> jsstring \<Rightarrow> jsstring \<Rightarrow> bytes \<Rightarrow> bytes" where
  "spec_part boundary contentType name body =
     utf8 (js ''--'' @ boundary @ crlf) @
     utf8 (js ''Content-Type: '' @ contentType @ crlf) @
     utf8 (js ''Content-Disposition: '' @ attachment name @ crlf) @
     utf8 (js ''Content-Length: '' @ decimal (length body) @ crlf) @
     utf8 crlf @ body @ utf8 crlf"

section \<open>Properties of sanitizeFilename\<close>

lemma replaceSpaceRuns_set:
  "set (replaceSpaceRuns s) \<subseteq> insert 0x5F {c \<in> set s. \<not> isWhiteSpace c}"
proof (induction s rule: replaceSpaceRuns.induct)
  case 1
  show ?case by simp
next
  case (2 c cs)
  show ?case
  proof (cases "isWhiteSpace c")
    case True
    have "set (dropWhile isWhiteSpace cs) \<subseteq> set cs"
      by (simp add: set_dropWhileD subsetI)
    with 2(1)[OF True] True show ?thesis by auto
  next
    case False
    with 2(2)[OF False] show ?thesis by auto
  qed
qed

lemma replaceSpaceRuns_id:
  "\<forall>c \<in> set s. \<not> isWhiteSpace c \<Longrightarrow> replaceSpaceRuns s = s"
  by (induction s) auto

lemma replaceSpaceRuns_nonempty: "s \<noteq> [] \<Longrightarrow> replaceSpaceRuns s \<noteq> []"
  by (cases s) auto

lemma replaceReserved_id:
  "\<forall>c \<in> set s. \<not> isReserved c \<Longrightarrow> replaceReserved s = s"
  by (induction s) (auto simp: replaceReserved_def)

lemma replaceReserved_set: "c \<in> set (replaceReserved s) \<Longrightarrow> \<not> isReserved c"
  by (auto simp: replaceReserved_def isReserved_def)

lemma underscore_plain: "\<not> isWhiteSpace 0x5F" "\<not> isReserved 0x5F"
  by (simp_all add: isWhiteSpace_def isReserved_def)

lemma sanitizeFilename_chars:
  assumes "c \<in> set (sanitizeFilename x)"
  shows "\<not> isReserved c \<and> \<not> isWhiteSpace c"
proof -
  let ?y = "replaceReserved (if x = [] then js ''image'' else x)"
  from assms have "c \<in> set (replaceSpaceRuns ?y)"
    unfolding sanitizeFilename_def by (rule in_set_takeD)
  with replaceSpaceRuns_set[of ?y] have "c = 0x5F \<or> (c \<in> set ?y \<and> \<not> isWhiteSpace c)"
    by auto
  then show ?thesis
    using underscore_plain replaceReserved_set by auto
qed

lemma sanitizeFilename_length: "length (sanitizeFilename x) \<le> 120"
  by (simp add: sanitizeFilename_def)

lemma js_image_nonempty: "js ''image'' \<noteq> []"
  by (simp add: js_def)

lemma sanitizeFilename_nonempty: "sanitizeFilename x \<noteq> []"
proof -
  have "replaceReserved (if x = [] then js ''image'' else x) \<noteq> []"
    using js_image_nonempty by (simp add: replaceReserved_def)
  then have "replaceSpaceRuns (replaceReserved (if x = [] then js ''image'' else x)) \<noteq> []"
    by (rule replaceSpaceRuns_nonempty)
  then show ?thesis
    by (simp add: sanitizeFilename_def)
qed

lemma sanitizeFilename_fixed:
  assumes "y \<noteq> []" "length y \<le> 120" "\<forall>c \<in> set y. \<not> isReserved c \<and> \<not> isWhiteSpace c"
  shows "sanitizeFilename y = y"
  using assms by (simp add: sanitizeFilename_def replaceReserved_id replaceSpaceRuns_id)

text \<open>
  C8. Sanitizing is idempotent, and a sanitized name contains none of the ten reserved
  characters and no white space at all (so no white-space run), has at most 120 code
  units and is not empty.
\<close>

theorem C8_sanitize_idempotent_safe:
  "sanitizeFilename (sanitizeFilename x) = sanitizeFilename x \<and>
   (\<forall>c \<in> set (sanitizeFilename x). \<not> isReserved c \<and> \<not> isWhiteSpace c) \<and>
   length (sanitizeFilename x) \<le> 120 \<and>
   sanitizeFilename x \<noteq> []"
proof -
  have chars: "\<forall>c \<in> set (sanitizeFilename x). \<not> isReserved c \<and> \<not> isWhiteSpace c"
    using sanitizeFilename_chars by blast
  have "sanitizeFilename (sanitizeFilename x) = sanitizeFilename x"
    using sanitizeFilename_nonempty sanitizeFilename_length chars
    by (rule sanitizeFilename_fixed)
  with chars show ?thesis
    using sanitizeFilename_length sanitizeFilename_nonempty by blast
qed

theorem C8_sanitize_idempotent_safe_witness:
  "sanitizeFilename (js ''a  b/c'') = js ''a_b-c'' \<and>
   sanitizeFilename (sanitizeFilename (js ''a  b/c'')) = sanitizeFilename (js ''a  b/c'') \<and>
   0x5F \<in> set (sanitizeFilename (js ''a  b/c'')) \<and> \<not> isReserved 0x5F \<and> \<not> isWhiteSpace 0x5F \<and>
   length (sanitizeFilename (js ''a  b/c'')) \<le> 120"
  using C8_sanitize_idempotent_safe [of "js ''a  b/c''"]
  by (simp add: sanitizeFilename_def js_def replaceReserved_def isReserved_def isWhiteSpace_def)

section \<open>Properties of the worker pool\<close>

lemma spawn_eq: "spawn k n i = (map (\<lambda>j. takeIndex j n) [i..<i + k], i + k)"
proof (induction k arbitrary: i)
  case 0
  show ?case by simp
next
  case (Suc k)
  have "[i..<i + Suc k] = i # [Suc i..<Suc i + k]"
    by (simp add: upt_rec)
  with Suc[of "Suc i"] show ?case by simp
qed

lemma run_invariant:
  assumes "P p"
    and "\<And>q w. P q \<Longrightarrow> rejection q = None \<Longrightarrow> w \<in> set (awaiting q) \<Longrightarrow> P (settle mapper items w q)"
  shows "P (run mapper items sched p)"
  using assms
proof (induction mapper items sched p rule: run.induct)
  case (1 mapper items sched p)
  show ?case
  proof (cases "rejection p \<noteq> None \<or> awaiting p = []")
    case True
    with 1(2) show ?thesis by (simp add: run.simps[of mapper items sched p])
  next
    case False
    then have "pick sched (awaiting p) \<in> set (awaiting p)"
      by (simp add: pick_awaiting)
    with False 1(2,3) have "P (settle mapper items (pick sched (awaiting p)) p)"
      by simp
    with 1(1)[OF False] 1(3) have "P (run mapper items (tl sched) (settle mapper items (pick sched (awaiting p)) p))"
      by blast
    with False show ?thesis by (simp add: run.simps[of mapper items sched p])
  qed
qed

lemma run_steps_invariant:
  assumes "P p"
    and "\<And>q w. P q \<Longrightarrow> rejection q = None \<Longrightarrow> w \<in> set (awaiting q) \<Longrightarrow> P (settle mapper items w q)"
  shows "P (run_steps t mapper items sched p)"
  using assms(1)
proof (induction t arbitrary: sched p)
  case 0
  then show ?case by simp
next
  case (Suc t)
  show ?case
  proof (cases "rejection p \<noteq> None \<or> awaiting p = []")
    case True
    with Suc.prems show ?thesis by simp
  next
    case False
    then have "pick sched (awaiting p) \<in> set (awaiting p)"
      by (simp add: pick_awaiting)
    with False Suc.prems have "P (settle mapper items (pick sched (awaiting p)) p)"
      using assms(2) by simp
    from Suc.IH[OF this] False show ?thesis by simp
  qed
qed

lemma run_final:
  "rejection (run mapper items sched p) \<noteq> None \<or> awaiting (run mapper items sched p) = []"
proof (induction mapper items sched p rule: run.induct)
  case (1 mapper items sched p)
  show ?case
  proof (cases "rejection p \<noteq> None \<or> awaiting p = []")
    case True
    then show ?thesis by (auto simp: run.simps[of mapper items sched p])
  next
    case False
    with 1[OF False] show ?thesis by (simp add: run.simps[of mapper items sched p])
  qed
qed

lemma run_is_run_steps:
  "\<exists>t. run mapper items sched p = run_steps t mapper items sched p"
proof (induction mapper items sched p rule: run.induct)
  case (1 mapper items sched p)
  show ?case
  proof (cases "rejection p \<noteq> None \<or> awaiting p = []")
    case True
    then have "run mapper items sched p = run_steps 0 mapper items sched p"
      by (simp add: run.simps[of mapper items sched p])
    then show ?thesis by blast
  next
    case False
    from 1[OF False] obtain t where
      "run mapper items (tl sched) (settle mapper items (pick sched (awaiting p)) p) =
       run_steps t mapper items (tl sched) (settle mapper items (pick sched (awaiting p)) p)"
      by blast
    with False have "run mapper items sched p = run_steps (Suc t) mapper items sched p"
      by (simp add: run.simps[of mapper items sched p])
    then show ?thesis by blast
  qed
qed

lemma awaited_takeIndex: "awaited [takeIndex i n] = (if i < n then [i] else [])"
  by (simp add: takeIndex_def)

lemma awaited_append: "awaited (xs @ ys) = awaited xs @ awaited ys"
  by (induction xs rule: awaited.induct) simp_all

lemma awaited_update:
  "w < length ws \<Longrightarrow> ws ! w = Awaiting idx \<Longrightarrow>
   mset (idx # awaited (ws[w := x])) = mset (awaited [x] @ awaited ws)"
proof (induction ws arbitrary: w)
  case Nil
  then show ?case by simp
next
  case (Cons a ws)
  show ?case
  proof (cases w)
    case 0
    with Cons.prems show ?thesis by (cases x) simp_all
  next
    case (Suc v)
    with Cons.prems have "mset (idx # awaited (ws[v := x])) = mset (awaited [x] @ awaited ws)"
      using Cons.IH[of v] by simp
    with Suc show ?thesis by (cases a; cases x) simp_all
  qed
qed

lemma awaited_none: "\<forall>x \<in> set ws. \<not> isAwaiting x \<Longrightarrow> awaited ws = []"
  by (induction ws rule: awaited.induct) simp_all

lemma awaiting_empty: "awaiting p = [] \<Longrightarrow> awaited (workers p) = []"
proof -
  assume "awaiting p = []"
  then have "\<forall>w < length (workers p). \<not> isAwaiting (workers p ! w)"
    by (auto simp: awaiting_def filter_empty_conv)
  then have "\<forall>x \<in> set (workers p). \<not> isAwaiting x"
    by (auto simp: in_set_conv_nth)
  then show ?thesis by (rule awaited_none)
qed

lemma awaiting_worker:
  assumes "w \<in> set (awaiting p)"
  obtains idx where "w < length (workers p)" "workers p ! w = Awaiting idx"
proof -
  from assms have w: "w < length (workers p)" "isAwaiting (workers p ! w)"
    by (simp_all add: awaiting_member)
  then obtain idx where "workers p ! w = Awaiting idx"
    by (cases "workers p ! w") auto
  with w(1) that show ?thesis by blast
qed

lemma awaited_map_Awaiting: "awaited (map Awaiting xs) = xs"
  by (induction xs) simp_all

lemma spawn_all_awaiting:
  "k \<le> n \<Longrightarrow> map (\<lambda>j. takeIndex j n) [0..<k] = map Awaiting [0..<k]"
  by (simp add: takeIndex_def)

lemma start_simps:
  "next_i (start items k s0) = k"
  "results (start items k s0) = replicate (length items) None"
  "workers (start items k s0) = map (\<lambda>j. takeIndex j (length items)) [0..<k]"
  "shared (start items k s0) = s0"
  "rejection (start items k s0) = None"
  by (simp_all add: start_def spawn_eq)

lemma pool_inv_start:
  assumes "k \<le> length items"
  shows "pool_inv k (length items) (start items k s0)"
proof -
  have "Finished \<notin> set (map Awaiting [0..<k])" "Failed \<notin> set (map Awaiting [0..<k])"
    by auto
  then show ?thesis
    using assms
    by (simp add: pool_inv_def start_simps spawn_all_awaiting awaited_map_Awaiting del: set_map)
qed

lemma pool_inv_settle:
  assumes inv: "pool_inv k (length items) p" and w: "w \<in> set (awaiting p)"
  shows "pool_inv k (length items) (settle mapper items w p)"
proof -
  from w obtain idx where wl: "w < length (workers p)" and wi: "workers p ! w = Awaiting idx"
    by (rule awaiting_worker)
  obtain r s' where m: "mapper (items ! idx) idx (shared p) = (r, s')"
    by (cases "mapper (items ! idx) idx (shared p)")
  let ?n = "length items"
  have upd: "\<And>x. mset (idx # awaited ((workers p)[w := x])) = mset (awaited [x] @ awaited (workers p))"
    using awaited_update[OF wl wi] .
  have sub: "\<And>x. set ((workers p)[w := x]) \<subseteq> insert x (set (workers p))"
    by (rule set_update_subset_insert)
  show ?thesis
  proof (cases r)
    case (Inl err)
    have st: "settle mapper items w p =
        p\<lparr> workers := (workers p)[w := Failed], shared := s', rejection := Some err \<rparr>"
      using wi m Inl by (simp add: settle_def)
    have d: "distinct (idx # awaited ((workers p)[w := Failed]))"
      using upd[of Failed] inv by (metis awaited.simps(1,4) append_Nil mset_eq_imp_distinct_iff pool_inv_def)
    have s: "set (idx # awaited ((workers p)[w := Failed])) = set (awaited (workers p))"
      using upd[of Failed] by (metis awaited.simps(1,4) append_Nil mset_eq_setD)
    from s have b: "\<forall>j \<in> set (awaited ((workers p)[w := Failed])). j < ?n \<and> j < next_i p"
      using inv by (auto simp: pool_inv_def)
    have f: "Finished \<in> set ((workers p)[w := Failed]) \<Longrightarrow> ?n \<le> next_i p"
      using sub[of Failed] inv by (auto simp: pool_inv_def)
    show ?thesis
      using inv d b f by (simp add: st pool_inv_def)
  next
    case (Inr v)
    let ?x = "takeIndex (next_i p) ?n"
    have st: "settle mapper items w p =
        p\<lparr> next_i := Suc (next_i p), results := (results p)[idx := Some v],
           workers := (workers p)[w := ?x], shared := s' \<rparr>"
      using wi m Inr by (simp add: settle_def)
    have fresh: "next_i p \<notin> set (awaited (workers p))"
      using inv by (auto simp: pool_inv_def)
    have "distinct (awaited [?x] @ awaited (workers p))"
      using inv fresh by (simp add: awaited_takeIndex pool_inv_def)
    then have d: "distinct (idx # awaited ((workers p)[w := ?x]))"
      using upd[of ?x] by (metis mset_eq_imp_distinct_iff)
    have s: "set (idx # awaited ((workers p)[w := ?x])) = set (awaited [?x] @ awaited (workers p))"
      using upd[of ?x] by (rule mset_eq_setD)
    have b: "\<forall>j \<in> set (awaited ((workers p)[w := ?x])). j < ?n \<and> j < Suc (next_i p)"
    proof
      fix j assume "j \<in> set (awaited ((workers p)[w := ?x]))"
      with s have "j \<in> set (awaited [?x]) \<or> j \<in> set (awaited (workers p))" by auto
      then show "j < ?n \<and> j < Suc (next_i p)"
        using inv by (auto simp: awaited_takeIndex pool_inv_def split: if_splits)
    qed
    have f: "Finished \<in> set ((workers p)[w := ?x]) \<Longrightarrow> ?n \<le> Suc (next_i p)"
      using sub[of ?x] inv by (auto simp: pool_inv_def takeIndex_def split: if_splits)
    have g: "Failed \<in> set ((workers p)[w := ?x]) \<Longrightarrow> rejection p \<noteq> None"
      using sub[of ?x] inv by (auto simp: pool_inv_def takeIndex_def split: if_splits)
    show ?thesis
      using inv d b f g by (simp add: st pool_inv_def)
  qed
qed

lemma awaited_nth: "w < length ws \<Longrightarrow> ws ! w = Awaiting idx \<Longrightarrow> idx \<in> set (awaited ws)"
proof (induction ws arbitrary: w rule: awaited.induct)
  case 1
  then show ?case by simp
next
  case (2 i ws)
  then show ?case by (cases w) auto
next
  case (3 ws)
  then show ?case by (cases w) auto
next
  case (4 ws)
  then show ?case by (cases w) auto
qed

lemma settle_success:
  assumes inv: "pool_inv k (length items) p" and w: "w \<in> set (awaiting p)"
    and ok: "\<forall>j < length items. \<forall>s. \<not> isl (fst (mapper (items ! j) j s))"
  obtains idx v s' where
    "idx < length items" "idx < next_i p" "idx \<in> set (awaited (workers p))"
    "mapper (items ! idx) idx (shared p) = (Inr v, s')"
    "settle mapper items w p =
       p\<lparr> next_i := Suc (next_i p), results := (results p)[idx := Some v],
          workers := (workers p)[w := takeIndex (next_i p) (length items)], shared := s' \<rparr>"
    "mset (idx # awaited ((workers p)[w := takeIndex (next_i p) (length items)])) =
     mset (awaited [takeIndex (next_i p) (length items)] @ awaited (workers p))"
proof -
  from w obtain idx where wl: "w < length (workers p)" and wi: "workers p ! w = Awaiting idx"
    by (rule awaiting_worker)
  from awaited_nth[OF wl wi] have mem: "idx \<in> set (awaited (workers p))" .
  with inv have bounds: "idx < length items" "idx < next_i p"
    by (auto simp: pool_inv_def)
  obtain r s' where m: "mapper (items ! idx) idx (shared p) = (r, s')"
    by (cases "mapper (items ! idx) idx (shared p)")
  with ok bounds(1) have "\<not> isl r"
    by (metis fst_conv)
  then obtain v where r: "r = Inr v"
    by (cases r) auto
  have st: "settle mapper items w p =
       p\<lparr> next_i := Suc (next_i p), results := (results p)[idx := Some v],
          workers := (workers p)[w := takeIndex (next_i p) (length items)], shared := s' \<rparr>"
    using wi m r by (simp add: settle_def)
  from that[OF bounds mem m[unfolded r] st awaited_update[OF wl wi]] show ?thesis .
qed

lemma finished_all:
  assumes inv: "pool_inv k n p" and "rejection p = None" and "awaiting p = []" and "0 < k"
  shows "n \<le> next_i p" and "awaited (workers p) = []"
proof -
  show aw: "awaited (workers p) = []"
    using assms(3) by (rule awaiting_empty)
  from inv assms(4) obtain x where x: "x \<in> set (workers p)"
    by (metis length_greater_0_conv pool_inv_def last_in_set)
  then obtain w where w: "w < length (workers p)" "workers p ! w = x"
    by (auto simp: in_set_conv_nth)
  have "\<not> isAwaiting x"
    using assms(3) w by (auto simp: awaiting_def filter_empty_conv)
  moreover have "x \<noteq> Failed"
    using inv assms(2) x by (auto simp: pool_inv_def)
  ultimately have "x = Finished"
    by (cases x) auto
  with x inv show "n \<le> next_i p"
    by (auto simp: pool_inv_def)
qed

lemma slots_inv_start: "k \<le> length items \<Longrightarrow> slots_inv g (length items) (start items k s0)"
  by (simp add: slots_inv_def start_simps spawn_all_awaiting awaited_map_Awaiting)

lemma slots_inv_settle:
  assumes inv: "pool_inv k (length items) p" and w: "w \<in> set (awaiting p)"
    and val: "\<forall>j < length items. \<forall>s. fst (mapper (items ! j) j s) = Inr (g j)"
    and sl: "slots_inv g (length items) p"
  shows "slots_inv g (length items) (settle mapper items w p)"
    and "rejection (settle mapper items w p) = rejection p"
proof -
  let ?n = "length items"
  let ?x = "takeIndex (next_i p) ?n"
  from val have ok: "\<forall>j < ?n. \<forall>s. \<not> isl (fst (mapper (items ! j) j s))" by simp
  from inv w ok obtain idx v s' where
    b: "idx < ?n" "idx < next_i p" "idx \<in> set (awaited (workers p))"
    and m: "mapper (items ! idx) idx (shared p) = (Inr v, s')"
    and st: "settle mapper items w p =
       p\<lparr> next_i := Suc (next_i p), results := (results p)[idx := Some v],
          workers := (workers p)[w := ?x], shared := s' \<rparr>"
    and ms: "mset (idx # awaited ((workers p)[w := ?x])) = mset (awaited [?x] @ awaited (workers p))"
    by (rule settle_success)
  from val b(1) m have v: "v = g idx"
    by (metis fst_conv sum.inject(2))
  from st show "rejection (settle mapper items w p) = rejection p" by simp
  have fresh: "next_i p \<notin> set (awaited (workers p))"
    using inv by (auto simp: pool_inv_def)
  have "distinct (awaited [?x] @ awaited (workers p))"
    using inv fresh by (simp add: awaited_takeIndex pool_inv_def)
  then have d: "distinct (idx # awaited ((workers p)[w := ?x]))"
    using ms by (metis mset_eq_imp_distinct_iff)
  have s: "set (idx # awaited ((workers p)[w := ?x])) = set (awaited [?x] @ awaited (workers p))"
    using ms by (rule mset_eq_setD)
  have len: "length (results p) = ?n"
    using inv by (simp add: pool_inv_def)
  have "\<forall>j < ?n. ((results p)[idx := Some v]) ! j =
        (if j < Suc (next_i p) \<and> j \<notin> set (awaited ((workers p)[w := ?x])) then Some (g j) else None)"
  proof (intro allI impI)
    fix j assume j: "j < ?n"
    show "((results p)[idx := Some v]) ! j =
        (if j < Suc (next_i p) \<and> j \<notin> set (awaited ((workers p)[w := ?x])) then Some (g j) else None)"
    proof (cases "j = idx")
      case True
      with d b len v show ?thesis by simp
    next
      case False
      have old: "results p ! j =
          (if j < next_i p \<and> j \<notin> set (awaited (workers p)) then Some (g j) else None)"
        using sl j by (simp add: slots_inv_def)
      have mem: "j \<in> set (awaited ((workers p)[w := ?x])) \<longleftrightarrow>
                 j \<in> set (awaited [?x]) \<or> j \<in> set (awaited (workers p))"
        using s False by auto
      show ?thesis
      proof (cases "j = next_i p")
        case True
        with j have "j \<in> set (awaited [?x])" by (simp add: awaited_takeIndex)
        with mem old True False show ?thesis by simp
      next
        case nx: False
        then have "j \<notin> set (awaited [?x])" by (simp add: awaited_takeIndex)
        with mem old nx False show ?thesis by (auto simp: less_Suc_eq)
      qed
    qed
  qed
  then show "slots_inv g ?n (settle mapper items w p)"
    by (simp add: st slots_inv_def)
qed

lemma run_slots:
  assumes k: "k \<le> length items" "0 < k \<or> items = []"
    and val: "\<forall>j < length items. \<forall>s. fst (mapper (items ! j) j s) = Inr (g j)"
  shows "rejection (run mapper items sched (start items k s0)) = None"
    and "results (run mapper items sched (start items k s0)) = map (\<lambda>j. Some (g j)) [0..<length items]"
proof -
  let ?n = "length items"
  let ?I = "\<lambda>p. pool_inv k ?n p \<and> slots_inv g ?n p \<and> rejection p = None"
  let ?p = "run mapper items sched (start items k s0)"
  have "?I (start items k s0)"
    using k(1) by (simp add: pool_inv_start slots_inv_start start_simps)
  moreover have "\<And>q w. ?I q \<Longrightarrow> rejection q = None \<Longrightarrow> w \<in> set (awaiting q) \<Longrightarrow>
                   ?I (settle mapper items w q)"
    using pool_inv_settle slots_inv_settle val by metis
  ultimately have I: "?I ?p"
    by (rule run_invariant)
  then show rej: "rejection ?p = None" by simp
  with run_final[of mapper items sched "start items k s0"] have aw: "awaiting ?p = []" by simp
  have len: "length (results ?p) = ?n"
    using I by (simp add: pool_inv_def)
  have "\<forall>j < ?n. results ?p ! j = Some (g j)"
  proof (cases "0 < k")
    case True
    from I rej aw True have "?n \<le> next_i ?p" "awaited (workers ?p) = []"
      using finished_all by blast+
    with I show ?thesis by (simp add: slots_inv_def)
  next
    case False
    with k(2) show ?thesis by simp
  qed
  with len show "results ?p = map (\<lambda>j. Some (g j)) [0..<?n]"
    by (intro nth_equalityI) simp_all
qed

lemma log_inv_start: "k \<le> length items \<Longrightarrow> log_inv e s0 (length items) (start items k s0)"
  by (simp add: log_inv_def start_simps spawn_all_awaiting awaited_map_Awaiting)

lemma log_inv_settle:
  assumes inv: "pool_inv k (length items) p" and w: "w \<in> set (awaiting p)"
    and app: "\<forall>j < length items. \<forall>s. mapper (items ! j) j s = (Inr (g j), s @ [e j])"
    and lg: "log_inv e s0 (length items) p"
  shows "log_inv e s0 (length items) (settle mapper items w p)"
proof -
  let ?n = "length items"
  let ?x = "takeIndex (next_i p) ?n"
  from app have ok: "\<forall>j < ?n. \<forall>s. \<not> isl (fst (mapper (items ! j) j s))" by simp
  from inv w ok obtain idx v s' where
    b: "idx < ?n" "idx < next_i p" "idx \<in> set (awaited (workers p))"
    and m: "mapper (items ! idx) idx (shared p) = (Inr v, s')"
    and st: "settle mapper items w p =
       p\<lparr> next_i := Suc (next_i p), results := (results p)[idx := Some v],
          workers := (workers p)[w := ?x], shared := s' \<rparr>"
    and ms: "mset (idx # awaited ((workers p)[w := ?x])) = mset (awaited [?x] @ awaited (workers p))"
    by (rule settle_success)
  from app b(1) m have s': "s' = shared p @ [e idx]"
    by (metis prod.inject)
  have "mset s' + image_mset e (mset (awaited ((workers p)[w := ?x]))) =
        mset (shared p) + image_mset e (mset (idx # awaited ((workers p)[w := ?x])))"
    by (simp add: s')
  also have "\<dots> = mset (shared p) + image_mset e (mset (awaited [?x] @ awaited (workers p)))"
    by (simp only: ms)
  also have "\<dots> = (mset (shared p) + image_mset e (mset (awaited (workers p)))) +
                   image_mset e (mset (awaited [?x]))"
    by simp
  also have "\<dots> = mset s0 + image_mset e (mset [0..<min (next_i p) ?n]) +
                   image_mset e (mset (awaited [?x]))"
    using lg by (simp add: log_inv_def)
  also have "\<dots> = mset s0 + image_mset e (mset [0..<min (Suc (next_i p)) ?n])"
    by (cases "next_i p < ?n") (simp_all add: awaited_takeIndex min_def)
  finally show ?thesis
    by (simp add: st log_inv_def)
qed

lemma run_log:
  assumes k: "k \<le> length items" "0 < k \<or> items = []"
    and app: "\<forall>j < length items. \<forall>s. mapper (items ! j) j s = (Inr (g j), s @ [e j])"
  shows "mset (shared (run mapper items sched (start items k s0))) =
         mset s0 + mset (map e [0..<length items])"
proof -
  let ?n = "length items"
  let ?I = "\<lambda>p. pool_inv k ?n p \<and> log_inv e s0 ?n p"
  let ?p = "run mapper items sched (start items k s0)"
  from app have val: "\<forall>j < ?n. \<forall>s. fst (mapper (items ! j) j s) = Inr (g j)" by simp
  have rej: "rejection ?p = None"
    using k val by (rule run_slots(1))
  with run_final[of mapper items sched "start items k s0"] have aw: "awaiting ?p = []" by simp
  have "?I (start items k s0)"
    using k(1) by (simp add: pool_inv_start log_inv_start)
  moreover have "\<And>q w. ?I q \<Longrightarrow> rejection q = None \<Longrightarrow> w \<in> set (awaiting q) \<Longrightarrow>
                   ?I (settle mapper items w q)"
    using pool_inv_settle log_inv_settle app by metis
  ultimately have I: "?I ?p"
    by (rule run_invariant)
  have awd: "awaited (workers ?p) = []"
    using aw by (rule awaiting_empty)
  show ?thesis
  proof (cases "0 < k")
    case True
    from I rej aw True have "?n \<le> next_i ?p"
      using finished_all by blast
    with I awd show ?thesis by (simp add: log_inv_def min_def)
  next
    case False
    with k(2) I awd show ?thesis by (simp add: log_inv_def)
  qed
qed





theorem C1_mapWithLimit_results:
  assumes "0 < limit"
    and "\<forall>j < length items. \<forall>s. fst (mapper (items ! j) j s) = Inr (g j)"
  shows "fst (mapWithLimit items limit mapper sched s0) =
           Inr (map (\<lambda>j. Some (g j)) [0..<length items]) \<and>
         inflight (run mapper items sched
           (start items (nat (min limit (int (length items)))) s0)) = 0"
proof -
  let ?k = "nat (min limit (int (length items)))"
  let ?p = "run mapper items sched (start items ?k s0)"
  have k: "?k \<le> length items" "0 < ?k \<or> items = []"
    using assms(1) by auto
  have rej: "rejection ?p = None"
    using k assms(2) by (rule run_slots(1))
  have res: "results ?p = map (\<lambda>j. Some (g j)) [0..<length items]"
    using k assms(2) by (rule run_slots(2))
  from rej run_final[of mapper items sched "start items ?k s0"] have "awaiting ?p = []"
    by simp
  then have "inflight ?p = 0"
    by (simp add: inflight_def)
  moreover have "\<not> min limit (int (length items)) < 0"
    using assms(1) by simp
  ultimately show ?thesis
    using rej res by (simp add: mapWithLimit_def Let_def)
qed

lemmas pool_eval =
  mapWithLimit_def start_def takeIndex_def awaiting_def inflight_def pick_def settle_def
  run.simps Let_def upt_rec

theorem C1_mapWithLimit_results_witness:
  "(0::int) < 2 \<and>
   fst (mapWithLimit [5, 6, 7] 2 tenfold [1, 0] []) = Inr [Some 50, Some 60, Some 70]"
  using C1_mapWithLimit_results [of 2 "[5, 6, 7]" tenfold "\<lambda>j. [5, 6, 7] ! j * 10" "[1, 0]" "[]"]
  by (simp add: tenfold_def upt_rec less_Suc_eq numeral_3_eq_3)



lemmas number_eval =
  js_def Number_def stringToNumber_def trim_def isWhiteSpace_def parseUnsignedDecimal_def
  parseMantissa_def parseDigits_def digitVal_def parseExponent_def toDouble_def parsePrefixed_def
  negate_def clamp_def

lemmas query_eval = resolveOptions_def sampleQuery_def parseBool_def toLowerCase_def



text \<open>
  C9 fails as stated: the body has no field \<open>uptimeSeconds\<close>; the uptime is sent under the
  name \<open>uptime\<close>.
\<close>

theorem C9_uptimeSeconds_counterexample:
  "jsonField (health sampleEnv) ''uptimeSeconds'' = None"
  by (simp add: jsonField_def health_def)

text \<open>
  C9, amended. \<open>GET /health\<close> answers with status 200 and a JSON body whose field \<open>ok\<close> is
  true and whose field \<open>uptime\<close> holds the process uptime, a non-negative number when the
  runtime reports one.
\<close>

theorem C9_health:
  assumes "0 \<le> uptime E"
  shows "\<exists>kvs u. health E = Json 200 kvs \<and>
           map_of kvs ''ok'' = Some (JBool True) \<and>
           map_of kvs ''uptime'' = Some (JNum (Fin u)) \<and> 0 \<le> u"
  using assms by (simp add: health_def)

theorem C9_health_witness:
  "0 \<le> uptime sampleEnv \<and>
   jsonField (health sampleEnv) ''ok'' = Some (JBool True) \<and>
   jsonField (health sampleEnv) ''uptime'' = Some (JNum (Fin 12.5))"
  using C9_health [of sampleEnv]
  by (simp add: jsonField_def health_def sampleEnv_def)

text \<open>
  C10. When the resolved options have \<open>lossless\<close> set, the encoder is called with quality
  100, whatever quality the options record holds.
\<close>

theorem C10_lossless_quality:
  assumes "lossless opts"
  shows "convertBufferToWebp E buf opts = webp E buf (webpOptions opts) \<and>
         quality (webpOptions opts) = Some (Fin 100)"
  using assms by (simp add: convertBufferToWebp_def webpOptions_def)

theorem C10_lossless_quality_witness:
  "lossless (resolveOptions sampleEnv (sampleQuery [(''lossless'', ''TRUE''), (''quality'', ''57'')])) \<and>
   quality (resolveOptions sampleEnv (sampleQuery [(''lossless'', ''TRUE''), (''quality'', ''57'')])) =
     Some (Fin 57) \<and>
   quality (webpOptions
     (resolveOptions sampleEnv (sampleQuery [(''lossless'', ''TRUE''), (''quality'', ''57'')]))) =
     Some (Fin 100)"
  using C10_lossless_quality
    [of "resolveOptions sampleEnv (sampleQuery [(''lossless'', ''TRUE''), (''quality'', ''57'')])"
        sampleEnv "[]"]
  by (simp add: query_eval number_eval)

lemmas convert_eval =
  convert_def outputMode_def orElse_def singleBranch_def outName_def changeExtToWebp_def
  convertBufferToWebp_def webpOptions_def sampleFile_def attachment_def quoted_def
  sanitizeFilename_def replaceReserved_def isReserved_def failName_def failMessage_def

section \<open>Mode selection\<close>

lemma convert_no_files:
  "convert E None q sched = convert E (Some []) q sched"
  by (simp add: convert_def)

lemma convert_mode_selection:
  assumes "files \<noteq> []"
  shows "convert E (Some files) q sched =
     (if outputMode q = js ''zip'' then zipBranch E (resolveOptions E q) files sched
      else if outputMode q = js ''multipart'' then multipartBranch E (resolveOptions E q) files
      else if outputMode q = js ''auto'' \<and> length files > 1
        then zipBranch E (resolveOptions E q) files sched
      else if length files = 1 then singleBranch E (resolveOptions E q) (files ! 0)
      else Json 400 [(''error'', JStr (js ''Invalid output mode''))])"
proof -
  have "js ''multipart'' \<noteq> js ''zip''" "js ''multipart'' \<noteq> js ''auto''"
    by (simp_all add: js_def)
  with assms show ?thesis
    by (auto simp: convert_def Let_def)
qed

text \<open>
  C6: an unknown value of \<open>output\<close> is turned away with status 400 only when there are
  two files or more. With one file the first branch of the handler is taken, the file is
  converted and sent with status 200.
\<close>

theorem C6_bogus_single_file_converted:
  "convert sampleEnv (Some [sampleFile ''photo.png'' [1, 2]]) (sampleQuery [(''output'', ''bogus'')]) [] =
     Send 200
       [(''Content-Type'', js ''image/webp''),
        (''Content-Disposition'', js ''attachment; filename='' @ quoted (js ''photo.webp'')),
        (''Cache-Control'', js ''no-store'')]
       [0x52, 1, 2]"
  by (simp add: convert_eval query_eval number_eval sampleEnv_def)

lemma bogus_two_files_rejected:
  "convert sampleEnv (Some [sampleFile ''photo.png'' [1, 2], sampleFile ''b.png'' [3]])
     (sampleQuery [(''output'', ''bogus'')]) [] =
   Json 400 [(''error'', JStr (js ''Invalid output mode''))]"
  by (simp add: convert_eval query_eval number_eval sampleEnv_def)

section \<open>The multipart body\<close>

lemma writeParts_in_order:
  "writeParts E convertOpts boundary files = concat (map (writePart E convertOpts boundary) files)"
  by (induction files) simp_all

lemma utf8_append:
  "\<not> isLowSurrogate c \<Longrightarrow> utf8 (s @ c # t) = utf8 s @ utf8 (c # t)"
  by (induction s rule: utf8.induct) simp_all

lemma utf8_append_crlf: "utf8 (s @ crlf) = utf8 s @ utf8 crlf"
  unfolding crlf_def by (rule utf8_append) (simp add: isLowSurrogate_def)

lemma utf8_newline: "utf8 [0x0A] = [0x0A]" "utf8 [0x0D, 0x0A] = [0x0D, 0x0A]"
  by (simp_all add: utf8Unit_def isHighSurrogate_def)

lemma success_part_conforms:
  assumes "convertBufferToWebp E (buffer f) convertOpts = Inr buf"
  shows "wire (writePart E convertOpts boundary f) =
           spec_part boundary (js ''image/webp'') (outName E f) buf"
proof -
  have ct: "js ''Content-Type: image/webp'' = js ''Content-Type: '' @ js ''image/webp''"
    by (simp add: js_def)
  have "utf8 (js ''Content-Length: '' @ decimal (length buf) @ crlf @ crlf) =
        utf8 (js ''Content-Length: '' @ decimal (length buf) @ crlf) @ utf8 crlf"
    using utf8_append_crlf[of "js ''Content-Length: '' @ decimal (length buf) @ crlf"] by simp
  with assms ct show ?thesis
    by (simp add: writePart_def wire_def onWire_def spec_part_def del: utf8.simps)
qed

lemma failure_part_differs:
  assumes "convertBufferToWebp E (buffer f) convertOpts = Inl err"
  shows "wire (writePart E convertOpts boundary f) \<noteq>
           spec_part boundary (js ''text/plain; charset=utf-8'') (failName E f)
             (utf8 (failMessage err))"
proof -
  let ?P = "js ''Content-Disposition: '' @ attachment (failName E f)"
  have ct: "js ''Content-Type: text/plain; charset=utf-8'' =
            js ''Content-Type: '' @ js ''text/plain; charset=utf-8''"
    by (simp add: js_def)
  have lf: "utf8 (?P @ [0x0A]) = utf8 ?P @ [0x0A]"
    using utf8_append[of "0x0A" ?P "[]"] by (simp add: utf8_newline isLowSurrogate_def del: utf8.simps)
  have cr: "utf8 (?P @ crlf) = utf8 ?P @ [0x0D, 0x0A]"
    using utf8_append_crlf[of ?P] by (simp add: crlf_def utf8_newline del: utf8.simps)
  have "wire (writePart E convertOpts boundary f) =
          utf8 (js ''--'' @ boundary @ crlf) @
          utf8 (js ''Content-Type: '' @ js ''text/plain; charset=utf-8'' @ crlf) @
          utf8 ?P @ 0x0A #
         (utf8 (js ''Content-Length: '' @ decimal (length (utf8 (failMessage err))) @ crlf @ crlf) @
          utf8 (failMessage err) @ utf8 crlf)"
    using assms lf ct
    by (simp add: writePart_def wire_def onWire_def Let_def del: utf8.simps)
  moreover have "spec_part boundary (js ''text/plain; charset=utf-8'') (failName E f)
             (utf8 (failMessage err)) =
          utf8 (js ''--'' @ boundary @ crlf) @
          utf8 (js ''Content-Type: '' @ js ''text/plain; charset=utf-8'' @ crlf) @
          utf8 ?P @ 0x0D #
         (0x0A # utf8 (js ''Content-Length: '' @ decimal (length (utf8 (failMessage err))) @ crlf) @
          utf8 crlf @ utf8 (failMessage err) @ utf8 crlf)"
    using cr by (simp add: spec_part_def del: utf8.simps)
  ultimately show ?thesis
    by simp
qed

text \<open>
  C5: the part written for an item whose conversion fails ends its Content-Disposition
  line with a bare LF, where every other line of the body, and the same line of the part
  for a success, ends with CR LF. The bytes on the wire are not the part the
  specification describes.
\<close>

theorem C5_failure_part_line_ending:
  "convert sampleEnv (Some [sampleFile ''c.png'' []]) (sampleQuery [(''output'', ''multipart'')]) [] =
     Multipart
       [(''Content-Type'', js ''multipart/mixed; boundary=batch-123e4567e89b12d3a456426614174000''),
        (''Cache-Control'', js ''no-store'')]
       [Text (js ''--batch-123e4567e89b12d3a456426614174000'' @ crlf),
        Text (js ''Content-Type: text/plain; charset=utf-8'' @ crlf),
        Text (js ''Content-Disposition: attachment; filename='' @ quoted (js ''c__ERROR.txt'') @ [0x0A]),
        Text (js ''Content-Length: 21'' @ crlf @ crlf),
        Bytes (utf8 (js ''Input buffer is empty'')),
        Text crlf,
        Text (js ''--batch-123e4567e89b12d3a456426614174000--'' @ crlf)] \<and>
   wire (writePart sampleEnv (resolveOptions sampleEnv (sampleQuery [(''output'', ''multipart'')]))
          (js ''batch-123e4567e89b12d3a456426614174000'') (sampleFile ''c.png'' [])) \<noteq>
     spec_part (js ''batch-123e4567e89b12d3a456426614174000'') (js ''text/plain; charset=utf-8'')
       (failName sampleEnv (sampleFile ''c.png'' []))
       (utf8 (failMessage (JsError (Some (js ''Input buffer is empty'')))))"
proof -
  let ?opts = "resolveOptions sampleEnv (sampleQuery [(''output'', ''multipart'')])"
  have "convertBufferToWebp sampleEnv (buffer (sampleFile ''c.png'' [])) ?opts =
          Inl (JsError (Some (js ''Input buffer is empty'')))"
    by (simp add: convertBufferToWebp_def sampleEnv_def sampleFile_def)
  then have "wire (writePart sampleEnv ?opts (js ''batch-123e4567e89b12d3a456426614174000'')
                (sampleFile ''c.png'' [])) \<noteq>
     spec_part (js ''batch-123e4567e89b12d3a456426614174000'') (js ''text/plain; charset=utf-8'')
       (failName sampleEnv (sampleFile ''c.png'' []))
       (utf8 (failMessage (JsError (Some (js ''Input buffer is empty'')))))"
    by (rule failure_part_differs)
  moreover have
    "convert sampleEnv (Some [sampleFile ''c.png'' []]) (sampleQuery [(''output'', ''multipart'')]) [] =
     Multipart
       [(''Content-Type'', js ''multipart/mixed; boundary=batch-123e4567e89b12d3a456426614174000''),
        (''Cache-Control'', js ''no-store'')]
       [Text (js ''--batch-123e4567e89b12d3a456426614174000'' @ crlf),
        Text (js ''Content-Type: text/plain; charset=utf-8'' @ crlf),
        Text (js ''Content-Disposition: attachment; filename='' @ quoted (js ''c__ERROR.txt'') @ [0x0A]),
        Text (js ''Content-Length: 21'' @ crlf @ crlf),
        Bytes (utf8 (js ''Input buffer is empty'')),
        Text crlf,
        Text (js ''--batch-123e4567e89b12d3a456426614174000--'' @ crlf)]"
    by (simp add: convert_eval query_eval number_eval sampleEnv_def multipartBranch_def
        writePart_def decimal.simps crlf_def utf8Unit_def isHighSurrogate_def)
  ultimately show ?thesis by blast
qed

section \<open>The archive branch\<close>

lemma zipWorker_appends:
  "zipWorker E convertOpts f idx archive = (Inr (), archive @ [archiveEntry E convertOpts f])"
  by (simp add: zipWorker_def archiveEntry_def split: sum.split)

lemma archiveEntry_not_Finalize: "archiveEntry E convertOpts f \<noteq> Finalize"
  by (simp add: archiveEntry_def split: sum.split)

lemma zip_run:
  assumes "1 \<le> limit"
  shows "\<exists>archive.
           mapWithLimit files limit (zipWorker E convertOpts) sched [] =
             (Inr (replicate (length files) (Some ())), archive) \<and>
           mset archive = mset (map (archiveEntry E convertOpts) files)"
proof -
  let ?k = "nat (min limit (int (length files)))"
  let ?m = "zipWorker E convertOpts"
  let ?e = "\<lambda>j. archiveEntry E convertOpts (files ! j)"
  let ?p = "run ?m files sched (start files ?k [])"
  have k: "?k \<le> length files" "0 < ?k \<or> files = []"
    using assms by auto
  have app: "\<forall>j < length files. \<forall>s. ?m (files ! j) j s = (Inr ((\<lambda>j. ()) j), s @ [?e j])"
    by (simp add: zipWorker_appends)
  then have val: "\<forall>j < length files. \<forall>s. fst (?m (files ! j) j s) = Inr ((\<lambda>j. ()) j)"
    by simp
  have rej: "rejection ?p = None"
    using k val by (rule run_slots(1))
  have res: "results ?p = map (\<lambda>j. Some ()) [0..<length files]"
    using k val by (rule run_slots(2))
  have "mset (shared ?p) = mset [] + mset (map ?e [0..<length files])"
    using k app by (rule run_log)
  then have sh: "mset (shared ?p) = mset (map (archiveEntry E convertOpts) files)"
    by (simp add: map_nth flip: map_map[unfolded comp_def])
  have "map (\<lambda>j. Some ()) [0..<length files] = replicate (length files) (Some ())"
    by (simp add: map_replicate_const)
  with res have res': "results ?p = replicate (length files) (Some ())" by simp
  have "\<not> min limit (int (length files)) < 0"
    using assms by simp
  then have "mapWithLimit files limit ?m sched [] = (Inr (results ?p), shared ?p)"
    using rej by (simp add: mapWithLimit_def Let_def)
  with res' sh show ?thesis by simp
qed

end
